theory Spec2Isabelle
  imports Complex_Main "HOL-Library.AList"
begin

section \<open>PageRank over inbound links (src/PageRank.py)\<close>

text \<open>
  The embedding follows \<^verbatim>\<open>compute_pagerank_inbound\<close> and the main program line by line.

  \<^item> The rows of \<^verbatim>\<open>edges.csv\<close> are a list of pairs (FromNode, ToNode); reading the file is
    outside the model.
  \<^item> Scores are Python floats in the source. Here they are rationals: the arithmetic is
    exact, rounding is not modelled. Every statement below is about the exact arithmetic,
    and only properties that do not rest on the absence of rounding are stated: the shape
    of the update, the control flow of the loop, the exceptions, the sign of the scores and
    the exact conservation of the total. What rounding decides (whether one more pass stays
    below the tolerance, whether the last bit depends on the iteration order of the node
    set) is outside the model.
  \<^item> A \<^verbatim>\<open>dict\<close> is an association list in insertion order with distinct keys;
    \<^verbatim>\<open>d[k] = v\<close> is \<^const>\<open>AList.update\<close> (in place for a key already there, at the end for
    a new one) and \<^verbatim>\<open>d[k]\<close> raises \<^verbatim>\<open>KeyError\<close> for a missing key.
  \<^item> A \<^verbatim>\<open>defaultdict\<close> is a total function that answers the default for a key never
    written.
  \<^item> The set \<^verbatim>\<open>all_nodes\<close> is iterated in an order Python does not specify: the order is a
    parameter (a list without repetition) of everything that iterates over it.
  \<^item> Exceptions are values: \<open>Inl\<close> of a \<open>py_error\<close>.
\<close>

subsection \<open>Python primitives\<close>

datatype py_error = KeyError | ZeroDivisionError | IndexError

type_synonym 'n edge = "'n \<times> 'n"

type_synonym 'n score_map = "('n \<times> rat) list"

definition dict_get :: "('k \<times> 'v) list \<Rightarrow> 'k \<Rightarrow> py_error + 'v" where
  "dict_get d k = (case map_of d k of None \<Rightarrow> Inl KeyError | Some v \<Rightarrow> Inr v)"

definition py_truediv :: "rat \<Rightarrow> rat \<Rightarrow> py_error + rat" where
  "py_truediv a b = (if b = 0 then Inl ZeroDivisionError else Inr (a / b))"

subsection \<open>Lines 22-35: the node set and the index\<close>

definition node_set :: "'n edge list \<Rightarrow> 'n set" where
  "node_set edges = fst ` set edges \<union> snd ` set edges"

text \<open>One enumeration of the node set, used when the caller fixes no other.\<close>

definition all_nodes :: "'n edge list \<Rightarrow> 'n list" where
  "all_nodes edges = remdups (map fst edges @ map snd edges)"

text \<open>What an iteration order of \<^verbatim>\<open>all_nodes\<close> is: every node once.\<close>

definition enumerates :: "'n list \<Rightarrow> 'n edge list \<Rightarrow> bool" where
  "enumerates ns edges = (distinct ns \<and> set ns = node_set edges)"

record 'n graph_index =
  inbound_links :: "'n \<Rightarrow> 'n list"
  outdegree :: "'n \<Rightarrow> nat"

definition empty_index :: "'n graph_index" where
  "empty_index = \<lparr>inbound_links = (\<lambda>_. []), outdegree = (\<lambda>_. 0)\<rparr>"

text \<open>Lines 32-35, one row: \<^verbatim>\<open>inbound_links[tgt].append(src); outdegree[src] += 1\<close>.\<close>

definition add_edge :: "'n graph_index \<Rightarrow> 'n edge \<Rightarrow> 'n graph_index" where
  "add_edge g row =
     (let src = fst row; tgt = snd row
      in \<lparr>inbound_links = (inbound_links g)(tgt := inbound_links g tgt @ [src]),
          outdegree = (outdegree g)(src := outdegree g src + 1)\<rparr>)"

definition build_index :: "'n edge list \<Rightarrow> 'n graph_index" where
  "build_index edges = foldl add_edge empty_index edges"

subsection \<open>Line 39: the uniform start\<close>

text \<open>\<^verbatim>\<open>{node: 1.0/n for node in all_nodes}\<close>: the division is evaluated once per node.\<close>

fun init_pagerank :: "'n list \<Rightarrow> nat \<Rightarrow> 'n score_map \<Rightarrow> py_error + 'n score_map" where
  "init_pagerank [] n acc = Inr acc"
| "init_pagerank (node # rest) n acc =
     (case py_truediv 1 (of_nat n) of
        Inl e \<Rightarrow> Inl e
      | Inr x \<Rightarrow> init_pagerank rest n (AList.update node x acc))"

subsection \<open>Lines 44-61: one pass\<close>

text \<open>Lines 51-54: \<^verbatim>\<open>in_sum += pagerank[u] / outdegree[u]\<close> for \<open>u\<close> in \<^verbatim>\<open>inbound_links[v]\<close>.\<close>

fun in_sum_loop :: "'n score_map \<Rightarrow> ('n \<Rightarrow> nat) \<Rightarrow> 'n list \<Rightarrow> rat \<Rightarrow> py_error + rat" where
  "in_sum_loop pagerank outdeg [] in_sum = Inr in_sum"
| "in_sum_loop pagerank outdeg (u # us) in_sum =
     (case dict_get pagerank u of
        Inl e \<Rightarrow> Inl e
      | Inr p \<Rightarrow>
          (case py_truediv p (of_nat (outdeg u)) of
             Inl e \<Rightarrow> Inl e
           | Inr q \<Rightarrow> in_sum_loop pagerank outdeg us (in_sum + q)))"

text \<open>Lines 49-58: the loop over \<^verbatim>\<open>all_nodes\<close> that fills \<^verbatim>\<open>new_pagerank\<close>.\<close>

fun node_loop ::
  "'n graph_index \<Rightarrow> rat \<Rightarrow> nat \<Rightarrow> rat \<Rightarrow> 'n score_map \<Rightarrow> 'n list \<Rightarrow> 'n score_map
     \<Rightarrow> py_error + 'n score_map" where
  "node_loop g damping n sum_pr pagerank [] new_pagerank = Inr new_pagerank"
| "node_loop g damping n sum_pr pagerank (v # vs) new_pagerank =
     (case in_sum_loop pagerank (outdegree g) (inbound_links g v) 0 of
        Inl e \<Rightarrow> Inl e
      | Inr in_sum \<Rightarrow>
          (case py_truediv sum_pr (of_nat n) of
             Inl e \<Rightarrow> Inl e
           | Inr q \<Rightarrow>
               node_loop g damping n sum_pr pagerank vs
                 (AList.update v ((1 - damping) * q + damping * in_sum) new_pagerank)))"

text \<open>Line 61: \<^verbatim>\<open>sum(abs(new_pagerank[v] - pagerank[v]) for v in all_nodes)\<close>.\<close>

fun diff_loop :: "'n score_map \<Rightarrow> 'n score_map \<Rightarrow> 'n list \<Rightarrow> rat \<Rightarrow> py_error + rat" where
  "diff_loop new_pagerank pagerank [] acc = Inr acc"
| "diff_loop new_pagerank pagerank (v # vs) acc =
     (case dict_get new_pagerank v of
        Inl e \<Rightarrow> Inl e
      | Inr a \<Rightarrow>
          (case dict_get pagerank v of
             Inl e \<Rightarrow> Inl e
           | Inr b \<Rightarrow> diff_loop new_pagerank pagerank vs (acc + \<bar>a - b\<bar>)))"

text \<open>Lines 44-61 together: the new map and \<^verbatim>\<open>diff\<close>.\<close>

definition pagerank_pass ::
  "'n list \<Rightarrow> 'n graph_index \<Rightarrow> rat \<Rightarrow> 'n score_map \<Rightarrow> py_error + ('n score_map \<times> rat)" where
  "pagerank_pass ns g damping pagerank =
     (let sum_pr = sum_list (map snd pagerank)
      in case node_loop g damping (length ns) sum_pr pagerank ns [] of
           Inl e \<Rightarrow> Inl e
         | Inr new_pagerank \<Rightarrow>
             (case diff_loop new_pagerank pagerank ns 0 of
                Inl e \<Rightarrow> Inl e
              | Inr diff \<Rightarrow> Inr (new_pagerank, diff)))"

subsection \<open>Lines 43-69: the iteration\<close>

text \<open>
  What a run leaves behind: the map it returns, the number of times the loop body ran, and
  whether it left through the \<^verbatim>\<open>break\<close> of line 67 (the run that prints
  \<^verbatim>\<open>Convergence atteinte\<close>).
\<close>

record 'n run_result =
  scores :: "'n score_map"
  passes :: nat
  converged :: bool

text \<open>
  \<^verbatim>\<open>for iteration in range(max_iter)\<close>: the first argument counts the passes left, \<open>iteration\<close>
  the passes done.
\<close>

fun iterations ::
  "nat \<Rightarrow> 'n list \<Rightarrow> 'n graph_index \<Rightarrow> rat \<Rightarrow> rat \<Rightarrow> nat \<Rightarrow> 'n score_map
     \<Rightarrow> py_error + 'n run_result" where
  "iterations 0 ns g damping tol iteration pagerank =
     Inr \<lparr>scores = pagerank, passes = iteration, converged = False\<rparr>"
| "iterations (Suc k) ns g damping tol iteration pagerank =
     (case pagerank_pass ns g damping pagerank of
        Inl e \<Rightarrow> Inl e
      | Inr (new_pagerank, diff) \<Rightarrow>
          if diff < tol
          then Inr \<lparr>scores = new_pagerank, passes = Suc iteration, converged = True\<rparr>
          else iterations k ns g damping tol (Suc iteration) new_pagerank)"

text \<open>The body of \<^verbatim>\<open>compute_pagerank_inbound\<close> for a given iteration order of the node set.\<close>

definition pagerank_run ::
  "'n list \<Rightarrow> 'n edge list \<Rightarrow> rat \<Rightarrow> int \<Rightarrow> rat \<Rightarrow> py_error + 'n run_result" where
  "pagerank_run ns edges damping max_iter tol =
     (case init_pagerank ns (length ns) [] of
        Inl e \<Rightarrow> Inl e
      | Inr pagerank \<Rightarrow>
          iterations (nat max_iter) ns (build_index edges) damping tol 0 pagerank)"

definition compute_pagerank_inbound ::
  "'n edge list \<Rightarrow> rat \<Rightarrow> int \<Rightarrow> rat \<Rightarrow> py_error + 'n score_map" where
  "compute_pagerank_inbound edges damping max_iter tol =
     (case pagerank_run (all_nodes edges) edges damping max_iter tol of
        Inl e \<Rightarrow> Inl e
      | Inr r \<Rightarrow> Inr (scores r))"

subsection \<open>Lines 85-108: the main program\<close>

text \<open>One printed line of the listing: rank, node, name when there is one, score.\<close>

datatype listing_line = Line nat int "string option" rat

text \<open>Python's \<^verbatim>\<open>xs[i]\<close> on a list: a negative index counts from the end.\<close>

definition list_index :: "'a list \<Rightarrow> int \<Rightarrow> py_error + 'a" where
  "list_index xs i =
     (if 0 \<le> i \<and> i < int (length xs) then Inr (xs ! nat i)
      else if i < 0 \<and> - int (length xs) \<le> i then Inr (xs ! nat (int (length xs) + i))
      else Inl IndexError)"

text \<open>Lines 104-108, the body of the display loop for one \<open>i\<close>.\<close>

definition display_line :: "(int \<times> rat) list \<Rightarrow> string list \<Rightarrow> nat \<Rightarrow> py_error + listing_line" where
  "display_line sorted_pr node_names i =
     (case list_index sorted_pr (int i) of
        Inl e \<Rightarrow> Inl e
      | Inr (node_id, score) \<Rightarrow>
          if node_id < int (length node_names)
          then (case list_index node_names node_id of
                  Inl e \<Rightarrow> Inl e
                | Inr name \<Rightarrow> Inr (Line (i + 1) node_id (Some name) score))
          else Inr (Line (i + 1) node_id None score))"

text \<open>
  The display loop over the given positions: the lines printed, and the exception that ended
  the loop, if one did.
\<close>

fun display_loop ::
  "nat list \<Rightarrow> (int \<times> rat) list \<Rightarrow> string list \<Rightarrow> listing_line list \<times> py_error option" where
  "display_loop [] sorted_pr node_names = ([], None)"
| "display_loop (i # rest) sorted_pr node_names =
     (case display_line sorted_pr node_names i of
        Inl e \<Rightarrow> ([], Some e)
      | Inr l \<Rightarrow>
          (case display_loop rest sorted_pr node_names of
             (printed, err) \<Rightarrow> (l # printed, err)))"

text \<open>
  Line 93: \<^verbatim>\<open>sorted(..., key=lambda x: x[1], reverse=True)\<close>, a stable sort by descending
  score.
\<close>

definition sorted_by_score :: "(int \<times> rat) list \<Rightarrow> (int \<times> rat) list" where
  "sorted_by_score items = sort_key (\<lambda>x. - snd x) items"

text \<open>
  The main program on the rows of the edge file and the names loaded (the empty list when
  the name file cannot be read).
\<close>

definition main_program :: "int edge list \<Rightarrow> string list \<Rightarrow> listing_line list \<times> py_error option" where
  "main_program edges node_names =
     (case compute_pagerank_inbound edges (85 / 100) 100 (1 / 100000000) of
        Inl e \<Rightarrow> ([], Some e)
      | Inr pagerank_scores \<Rightarrow>
          display_loop [0..<20] (sorted_by_score pagerank_scores) node_names)"

subsection \<open>The update rule as the specification writes it\<close>

text \<open>
  The definitions of this subsection follow the words of the specification (section 4.2),
  not the source: a score map is a function on nodes, and the sums are those of the
  formulas. The theorems below compare them with the functions of the source.
\<close>

text \<open>The dict that holds \<open>pr v\<close> for every \<open>v\<close> of \<open>ns\<close>, inserted in that order.\<close>

definition tabulate :: "'n list \<Rightarrow> ('n \<Rightarrow> rat) \<Rightarrow> 'n score_map" where
  "tabulate ns pr = map (\<lambda>v. (v, pr v)) ns"

text \<open>\<^verbatim>\<open>in_sum(v)\<close>: the sum over \<open>u\<close> in \<^verbatim>\<open>inbound[v]\<close> of \<^verbatim>\<open>pr[u] / out_degree[u]\<close>.\<close>

definition in_sum_formula :: "'n graph_index \<Rightarrow> ('n \<Rightarrow> rat) \<Rightarrow> 'n \<Rightarrow> rat" where
  "in_sum_formula g pr v = (\<Sum>u\<leftarrow>inbound_links g v. pr u / of_nat (outdegree g u))"

text \<open>\<^verbatim>\<open>new_pr[v] = (1 - d) * (sum_pr / n) + d * in_sum(v)\<close>.\<close>

definition update_formula :: "'n list \<Rightarrow> 'n graph_index \<Rightarrow> rat \<Rightarrow> ('n \<Rightarrow> rat) \<Rightarrow> 'n \<Rightarrow> rat" where
  "update_formula ns g d pr v =
     (1 - d) * ((\<Sum>u\<leftarrow>ns. pr u) / of_nat (length ns)) + d * in_sum_formula g pr v"

text \<open>The L1 distance of two score functions over the nodes.\<close>

definition l1_diff :: "'n list \<Rightarrow> ('n \<Rightarrow> rat) \<Rightarrow> ('n \<Rightarrow> rat) \<Rightarrow> rat" where
  "l1_diff ns f h = (\<Sum>v\<leftarrow>ns. \<bar>f v - h v\<bar>)"

text \<open>
  The iteration with its convergence check, on score functions: the map it ends with, the
  number of passes, and whether it stopped on \<open>diff < tol\<close>.
\<close>

fun formula_loop ::
  "nat \<Rightarrow> 'n list \<Rightarrow> 'n graph_index \<Rightarrow> rat \<Rightarrow> rat \<Rightarrow> nat \<Rightarrow> ('n \<Rightarrow> rat)
     \<Rightarrow> ('n \<Rightarrow> rat) \<times> nat \<times> bool" where
  "formula_loop 0 ns g d tol i pr = (pr, i, False)"
| "formula_loop (Suc k) ns g d tol i pr =
     (let new = update_formula ns g d pr
      in if l1_diff ns new pr < tol then (new, Suc i, True)
         else formula_loop k ns g d tol (Suc i) new)"

text \<open>The start of line 39 and the maps of the successive passes, never stopping early.\<close>

definition uniform_start :: "'n list \<Rightarrow> 'n \<Rightarrow> rat" where
  "uniform_start ns = (\<lambda>_. 1 / of_nat (length ns))"

definition pagerank_iterate :: "'n list \<Rightarrow> 'n graph_index \<Rightarrow> rat \<Rightarrow> nat \<Rightarrow> 'n \<Rightarrow> rat" where
  "pagerank_iterate ns g d j = (update_formula ns g d ^^ j) (uniform_start ns)"

text \<open>\<^verbatim>\<open>diff\<close> of pass \<open>j\<close> (counted from 0): the distance of map \<open>j + 1\<close> from map \<open>j\<close>.\<close>

definition diff_at :: "'n list \<Rightarrow> 'n graph_index \<Rightarrow> rat \<Rightarrow> nat \<Rightarrow> rat" where
  "diff_at ns g d j = l1_diff ns (pagerank_iterate ns g d (Suc j)) (pagerank_iterate ns g d j)"

text \<open>
  No dangling node: every node that appears in the graph has an outbound edge, that is,
  every target of a row is the source of some row.
\<close>

definition no_dangling :: "'n edge list \<Rightarrow> bool" where
  "no_dangling edges = (snd ` set edges \<subseteq> fst ` set edges)"

section \<open>The index\<close>

text \<open>Unfolding sets for evaluating the definitions on concrete graphs.\<close>

lemmas index_eval = build_index_def empty_index_def add_edge_def Let_def

lemmas iterate_eval = pagerank_iterate_def diff_at_def uniform_start_def update_formula_def
  in_sum_formula_def l1_diff_def tabulate_def index_eval

lemmas run_eval = pagerank_run_def pagerank_pass_def dict_get_def py_truediv_def index_eval

lemma foldl_add_edge_inbound:
  "inbound_links (foldl add_edge g edges) v
     = inbound_links g v @ map fst (filter (\<lambda>e. snd e = v) edges)"
  by (induction edges arbitrary: g) (simp_all add: add_edge_def Let_def)

lemma foldl_add_edge_outdegree:
  "outdegree (foldl add_edge g edges) u
     = outdegree g u + length (filter (\<lambda>e. fst e = u) edges)"
  by (induction edges arbitrary: g) (simp_all add: add_edge_def Let_def)

lemma inbound_links_build_index:
  "inbound_links (build_index edges) v = map fst (filter (\<lambda>e. snd e = v) edges)"
  by (simp add: build_index_def empty_index_def foldl_add_edge_inbound)

lemma outdegree_build_index:
  "outdegree (build_index edges) u = length (filter (\<lambda>e. fst e = u) edges)"
  by (simp add: build_index_def empty_index_def foldl_add_edge_outdegree)

lemma inbound_is_source:
  "u \<in> set (inbound_links (build_index edges) v) \<Longrightarrow> u \<in> fst ` set edges"
  by (auto simp: inbound_links_build_index)

lemma source_outdegree_pos:
  "u \<in> fst ` set edges \<Longrightarrow> 0 < outdegree (build_index edges) u"
  by (auto simp: outdegree_build_index filter_empty_conv length_greater_0_conv)

section \<open>The source computes the update rule\<close>

lemma update_fresh: "k \<notin> fst ` set al \<Longrightarrow> AList.update k v al = al @ [(k, v)]"
  by (induction al) auto

lemma map_of_tabulate: "v \<in> set ns \<Longrightarrow> map_of (tabulate ns pr) v = Some (pr v)"
  by (induction ns) (auto simp: tabulate_def)

lemma dict_get_tabulate: "v \<in> set ns \<Longrightarrow> dict_get (tabulate ns pr) v = Inr (pr v)"
  by (simp add: dict_get_def map_of_tabulate)

lemma tabulate_snoc: "tabulate (ns @ [v]) pr = tabulate ns pr @ [(v, pr v)]"
  by (simp add: tabulate_def)

lemma keys_tabulate: "fst ` set (tabulate ns pr) = set ns"
  by (force simp: tabulate_def)

lemma init_pagerank_tabulate:
  "distinct (done @ rest) \<Longrightarrow> rest = [] \<or> n \<noteq> 0 \<Longrightarrow>
   init_pagerank rest n (tabulate done (\<lambda>_. 1 / of_nat n))
     = Inr (tabulate (done @ rest) (\<lambda>_. 1 / of_nat n))"
proof (induction rest arbitrary: "done")
  case Nil
  then show ?case by simp
next
  case (Cons v rest)
  have "AList.update v (1 / of_nat n) (tabulate done (\<lambda>_. 1 / of_nat n))
          = tabulate (done @ [v]) (\<lambda>_. 1 / of_nat n)"
    using Cons.prems(1) by (simp add: update_fresh keys_tabulate tabulate_snoc)
  moreover have "init_pagerank rest n (tabulate (done @ [v]) (\<lambda>_. 1 / of_nat n))
          = Inr (tabulate ((done @ [v]) @ rest) (\<lambda>_. 1 / of_nat n))"
    using Cons.prems by (intro Cons.IH) auto
  ultimately show ?case using Cons.prems(2) by (simp add: py_truediv_def)
qed

lemma in_sum_loop_tabulate:
  "set us \<subseteq> set ns \<Longrightarrow> (\<forall>u\<in>set us. outdeg u \<noteq> 0) \<Longrightarrow>
   in_sum_loop (tabulate ns pr) outdeg us acc
     = Inr (acc + (\<Sum>u\<leftarrow>us. pr u / of_nat (outdeg u)))"
  by (induction us arbitrary: acc) (simp_all add: dict_get_tabulate py_truediv_def add.assoc)

lemma diff_loop_tabulate:
  "set vs \<subseteq> set ns \<Longrightarrow>
   diff_loop (tabulate ns f) (tabulate ns h) vs acc = Inr (acc + l1_diff vs f h)"
  by (induction vs arbitrary: acc) (simp_all add: dict_get_tabulate l1_diff_def add.assoc)

lemma node_loop_tabulate:
  assumes "distinct (done @ vs)" "set (done @ vs) \<subseteq> set ns"
    and "\<forall>v\<in>set vs. set (inbound_links g v) \<subseteq> set ns"
    and "\<forall>v\<in>set vs. \<forall>u\<in>set (inbound_links g v). outdegree g u \<noteq> 0"
    and "vs = [] \<or> n \<noteq> 0"
  shows "node_loop g d n s (tabulate ns pr) vs
           (tabulate done (\<lambda>v. (1 - d) * (s / of_nat n) + d * in_sum_formula g pr v))
         = Inr (tabulate (done @ vs) (\<lambda>v. (1 - d) * (s / of_nat n) + d * in_sum_formula g pr v))"
  using assms
proof (induction vs arbitrary: "done")
  case Nil
  then show ?case by simp
next
  case (Cons v vs)
  let ?F = "\<lambda>v. (1 - d) * (s / of_nat n) + d * in_sum_formula g pr v"
  have ins: "in_sum_loop (tabulate ns pr) (outdegree g) (inbound_links g v) 0
               = Inr (in_sum_formula g pr v)"
    using Cons.prems(3,4) by (simp add: in_sum_loop_tabulate in_sum_formula_def)
  have upd: "AList.update v (?F v) (tabulate done ?F) = tabulate (done @ [v]) ?F"
    using Cons.prems(1) by (simp add: update_fresh keys_tabulate tabulate_snoc)
  have rec: "node_loop g d n s (tabulate ns pr) vs (tabulate (done @ [v]) ?F)
               = Inr (tabulate ((done @ [v]) @ vs) ?F)"
    using Cons.prems by (intro Cons.IH) auto
  have "n \<noteq> 0" using Cons.prems(5) by simp
  then show ?case using ins upd rec by (simp add: py_truediv_def)
qed

lemma tabulate_nil: "tabulate [] pr = []"
  by (simp add: tabulate_def)

lemma sum_list_snd_tabulate: "sum_list (map snd (tabulate ns pr)) = (\<Sum>u\<leftarrow>ns. pr u)"
  by (simp add: tabulate_def comp_def)

lemma enumerates_inbound_subset:
  "enumerates ns edges \<Longrightarrow> set (inbound_links (build_index edges) v) \<subseteq> set ns"
  by (auto simp: enumerates_def node_set_def dest: inbound_is_source)

lemma inbound_outdegree_nonzero:
  "u \<in> set (inbound_links (build_index edges) v) \<Longrightarrow> outdegree (build_index edges) u \<noteq> 0"
  using source_outdegree_pos [of u edges] inbound_is_source [of u edges v] by simp

lemma pagerank_pass_tabulate:
  assumes "enumerates ns edges"
  shows "pagerank_pass ns (build_index edges) d (tabulate ns pr)
           = Inr (tabulate ns (update_formula ns (build_index edges) d pr),
                  l1_diff ns (update_formula ns (build_index edges) d pr) pr)"
proof -
  let ?g = "build_index edges"
  let ?s = "\<Sum>u\<leftarrow>ns. pr u"
  have eq: "(\<lambda>v. (1 - d) * (?s / of_nat (length ns)) + d * in_sum_formula ?g pr v)
              = update_formula ns ?g d pr"
    by (rule ext) (simp add: update_formula_def)
  have "node_loop ?g d (length ns) ?s (tabulate ns pr) ns
          (tabulate [] (\<lambda>v. (1 - d) * (?s / of_nat (length ns)) + d * in_sum_formula ?g pr v))
        = Inr (tabulate ([] @ ns)
            (\<lambda>v. (1 - d) * (?s / of_nat (length ns)) + d * in_sum_formula ?g pr v))"
    using assms
    by (intro node_loop_tabulate)
       (auto simp: enumerates_def dest: inbound_outdegree_nonzero
             intro: subsetD [OF enumerates_inbound_subset [OF assms]])
  then have nl: "node_loop ?g d (length ns) ?s (tabulate ns pr) ns []
                   = Inr (tabulate ns (update_formula ns ?g d pr))"
    unfolding eq by (simp add: tabulate_nil)
  have dl: "diff_loop (tabulate ns (update_formula ns ?g d pr)) (tabulate ns pr) ns 0
              = Inr (l1_diff ns (update_formula ns ?g d pr) pr)"
    by (simp add: diff_loop_tabulate)
  show ?thesis
    by (simp add: pagerank_pass_def sum_list_snd_tabulate nl dl)
qed

lemma iterations_tabulate:
  assumes "enumerates ns edges"
  shows "iterations k ns (build_index edges) d tol i (tabulate ns pr)
           = (case formula_loop k ns (build_index edges) d tol i pr of
                (pr', p, c) \<Rightarrow> Inr \<lparr>scores = tabulate ns pr', passes = p, converged = c\<rparr>)"
  by (induction k arbitrary: i pr) (simp_all add: pagerank_pass_tabulate [OF assms] Let_def)

lemma pagerank_run_tabulate:
  assumes "enumerates ns edges"
  shows "pagerank_run ns edges d K tol
           = (case formula_loop (nat K) ns (build_index edges) d tol 0
                     (\<lambda>_. 1 / of_nat (length ns)) of
                (pr', p, c) \<Rightarrow> Inr \<lparr>scores = tabulate ns pr', passes = p, converged = c\<rparr>)"
proof -
  have "init_pagerank ns (length ns) (tabulate [] (\<lambda>_. 1 / of_nat (length ns)))
          = Inr (tabulate ([] @ ns) (\<lambda>_. 1 / of_nat (length ns)))"
    using assms by (intro init_pagerank_tabulate) (auto simp: enumerates_def)
  then have "init_pagerank ns (length ns) [] = Inr (tabulate ns (\<lambda>_. 1 / of_nat (length ns)))"
    by (simp add: tabulate_nil)
  then show ?thesis
    by (simp add: pagerank_run_def iterations_tabulate [OF assms])
qed

lemma enumerates_all_nodes: "enumerates (all_nodes edges) edges"
  by (auto simp: enumerates_def all_nodes_def node_set_def)

section \<open>Sums over the nodes and over the rows\<close>

lemma sum_list_delta:
  "distinct ns \<Longrightarrow> (\<Sum>v\<leftarrow>ns. if k = v then a else (0::rat)) = (if k \<in> set ns then a else 0)"
  by (induction ns) auto

lemma sum_list_by_key:
  fixes h :: "'e \<Rightarrow> rat"
  assumes "distinct ns" "key ` set es \<subseteq> set ns"
  shows "(\<Sum>v\<leftarrow>ns. \<Sum>e\<leftarrow>filter (\<lambda>e. key e = v) es. h e) = (\<Sum>e\<leftarrow>es. h e)"
  using assms(2)
proof (induction es)
  case Nil
  then show ?case by simp
next
  case (Cons x es)
  have "(\<Sum>v\<leftarrow>ns. \<Sum>e\<leftarrow>filter (\<lambda>e. key e = v) (x # es). h e)
          = (\<Sum>v\<leftarrow>ns. (if key x = v then h x else 0) + (\<Sum>e\<leftarrow>filter (\<lambda>e. key e = v) es. h e))"
    by (intro arg_cong [where f = sum_list] map_cong) auto
  also have "\<dots> = (\<Sum>v\<leftarrow>ns. if key x = v then h x else 0)
                    + (\<Sum>v\<leftarrow>ns. \<Sum>e\<leftarrow>filter (\<lambda>e. key e = v) es. h e)"
    by (simp add: sum_list_addf)
  also have "\<dots> = h x + (\<Sum>e\<leftarrow>es. h e)"
    using Cons assms(1) by (simp add: sum_list_delta)
  finally show ?case by simp
qed

lemma sum_list_same_key:
  fixes F :: "'k \<Rightarrow> rat"
  shows "(\<Sum>e\<leftarrow>filter (\<lambda>e. key e = u) es. F (key e)) = of_nat (length (filter (\<lambda>e. key e = u) es)) * F u"
  by (induction es) (simp_all add: algebra_simps)

lemma in_sum_formula_edges:
  "in_sum_formula (build_index edges) pr v
     = (\<Sum>e\<leftarrow>filter (\<lambda>e. snd e = v) edges.
          pr (fst e) / of_nat (outdegree (build_index edges) (fst e)))"
  by (simp add: in_sum_formula_def inbound_links_build_index comp_def)

lemma total_in_sum:
  assumes "enumerates ns edges"
  shows "(\<Sum>v\<leftarrow>ns. in_sum_formula (build_index edges) pr v)
           = (\<Sum>u\<leftarrow>ns. if outdegree (build_index edges) u = 0 then 0 else pr u)"
proof -
  let ?od = "outdegree (build_index edges)"
  let ?F = "\<lambda>u. pr u / of_nat (?od u)"
  have d: "distinct ns" and s: "snd ` set edges \<subseteq> set ns" and f: "fst ` set edges \<subseteq> set ns"
    using assms by (auto simp: enumerates_def node_set_def)
  have "(\<Sum>v\<leftarrow>ns. in_sum_formula (build_index edges) pr v)
          = (\<Sum>v\<leftarrow>ns. \<Sum>e\<leftarrow>filter (\<lambda>e. snd e = v) edges. ?F (fst e))"
    by (simp add: in_sum_formula_edges)
  also have "\<dots> = (\<Sum>e\<leftarrow>edges. ?F (fst e))"
    by (rule sum_list_by_key [OF d s])
  also have "\<dots> = (\<Sum>u\<leftarrow>ns. \<Sum>e\<leftarrow>filter (\<lambda>e. fst e = u) edges. ?F (fst e))"
    by (rule sum_list_by_key [OF d f, symmetric])
  also have "\<dots> = (\<Sum>u\<leftarrow>ns. of_nat (?od u) * ?F u)"
  proof -
    have "(\<Sum>e\<leftarrow>filter (\<lambda>e. fst e = u) edges. ?F (fst e)) = of_nat (?od u) * ?F u" for u
      using sum_list_same_key [where key = fst and u = u and es = edges and F = ?F] by (simp add: outdegree_build_index)
    then show ?thesis by simp
  qed
  also have "\<dots> = (\<Sum>u\<leftarrow>ns. if ?od u = 0 then 0 else pr u)"
    by (intro arg_cong [where f = sum_list] map_cong) auto
  finally show ?thesis .
qed

lemma sum_list_update_formula:
  assumes "enumerates ns edges"
  shows "(\<Sum>v\<leftarrow>ns. update_formula ns (build_index edges) d pr v)
           = (1 - d) * (\<Sum>u\<leftarrow>ns. pr u)
             + d * (\<Sum>u\<leftarrow>ns. if outdegree (build_index edges) u = 0 then 0 else pr u)"
proof -
  let ?c = "(1 - d) * ((\<Sum>u\<leftarrow>ns. pr u) / of_nat (length ns))"
  have "(\<Sum>v\<leftarrow>ns. update_formula ns (build_index edges) d pr v)
          = (\<Sum>v\<leftarrow>ns. ?c) + d * (\<Sum>v\<leftarrow>ns. in_sum_formula (build_index edges) pr v)"
    by (simp add: update_formula_def sum_list_addf sum_list_const_mult)
  also have "(\<Sum>v\<leftarrow>ns. ?c) = of_nat (length ns) * ?c"
    by (simp add: sum_list_triv)
  also have "of_nat (length ns) * ?c = (1 - d) * (\<Sum>u\<leftarrow>ns. pr u)"
    by (cases "ns = []") simp_all
  finally show ?thesis
    by (simp add: total_in_sum [OF assms])
qed

lemma no_dangling_outdegree:
  "no_dangling edges \<Longrightarrow> enumerates ns edges \<Longrightarrow> u \<in> set ns
     \<Longrightarrow> outdegree (build_index edges) u \<noteq> 0"
  using source_outdegree_pos [of u edges]
  by (auto simp: no_dangling_def enumerates_def node_set_def)

lemma update_formula_preserves_sum:
  assumes "enumerates ns edges" "no_dangling edges"
  shows "(\<Sum>v\<leftarrow>ns. update_formula ns (build_index edges) d pr v) = (\<Sum>u\<leftarrow>ns. pr u)"
proof -
  have "(\<Sum>u\<leftarrow>ns. if outdegree (build_index edges) u = 0 then 0 else pr u) = (\<Sum>u\<leftarrow>ns. pr u)"
    by (intro arg_cong [where f = sum_list] map_cong)
       (simp_all add: no_dangling_outdegree [OF assms(2,1)])
  then show ?thesis
    by (simp add: sum_list_update_formula [OF assms(1)] algebra_simps)
qed

section \<open>The loop on score functions\<close>

lemma formula_loop_invariant:
  assumes "P pr" "\<And>pr. P pr \<Longrightarrow> P (update_formula ns g d pr)"
  shows "P (fst (formula_loop k ns g d tol i pr))"
  using assms(1)
  by (induction k arbitrary: i pr) (simp_all add: Let_def assms(2))

lemma formula_loop_stops:
  assumes "j < k"
    and "l1_diff ns ((update_formula ns g d ^^ Suc j) pr) ((update_formula ns g d ^^ j) pr) < tol"
    and "\<And>m. m < j \<Longrightarrow>
           \<not> l1_diff ns ((update_formula ns g d ^^ Suc m) pr) ((update_formula ns g d ^^ m) pr) < tol"
  shows "formula_loop k ns g d tol i pr = ((update_formula ns g d ^^ Suc j) pr, i + Suc j, True)"
  using assms
proof (induction k arbitrary: i pr j)
  case 0
  then show ?case by simp
next
  case (Suc k)
  let ?U = "update_formula ns g d"
  show ?case
  proof (cases j)
    case 0
    with Suc.prems(2) show ?thesis by (simp add: Let_def)
  next
    case (Suc j')
    have first: "\<not> l1_diff ns (?U pr) pr < tol"
      using Suc.prems(3) [of 0] Suc by simp
    have "formula_loop k ns g d tol (Suc i) (?U pr)
            = ((?U ^^ Suc j') (?U pr), Suc i + Suc j', True)"
    proof (rule Suc.IH)
      show "j' < k" using Suc.prems(1) Suc by simp
      show "l1_diff ns ((?U ^^ Suc j') (?U pr)) ((?U ^^ j') (?U pr)) < tol"
        using Suc.prems(2) Suc by (simp add: funpow_swap1)
      show "\<not> l1_diff ns ((?U ^^ Suc m) (?U pr)) ((?U ^^ m) (?U pr)) < tol" if "m < j'" for m
        using Suc.prems(3) [of "Suc m"] that Suc by (simp add: funpow_swap1)
    qed
    with first Suc show ?thesis by (simp add: Let_def funpow_swap1)
  qed
qed

lemma formula_loop_exhausts:
  assumes "\<And>m. m < k \<Longrightarrow>
           \<not> l1_diff ns ((update_formula ns g d ^^ Suc m) pr) ((update_formula ns g d ^^ m) pr) < tol"
  shows "formula_loop k ns g d tol i pr = ((update_formula ns g d ^^ k) pr, i + k, False)"
  using assms
proof (induction k arbitrary: i pr)
  case 0
  then show ?case by simp
next
  case (Suc k)
  let ?U = "update_formula ns g d"
  have first: "\<not> l1_diff ns (?U pr) pr < tol"
    using Suc.prems [of 0] by simp
  have "formula_loop k ns g d tol (Suc i) (?U pr) = ((?U ^^ k) (?U pr), Suc i + k, False)"
  proof (rule Suc.IH)
    show "\<not> l1_diff ns ((?U ^^ Suc m) (?U pr)) ((?U ^^ m) (?U pr)) < tol" if "m < k" for m
      using Suc.prems [of "Suc m"] that by (simp add: funpow_swap1)
  qed
  with first show ?case by (simp add: Let_def funpow_swap1)
qed

section \<open>No division by zero\<close>

lemma in_sum_loop_no_zero_division:
  "\<forall>u\<in>set us. outdeg u \<noteq> 0 \<Longrightarrow> in_sum_loop pagerank outdeg us acc \<noteq> Inl ZeroDivisionError"
  by (induction us arbitrary: acc)
     (auto simp: dict_get_def py_truediv_def split: option.splits sum.splits)

lemma diff_loop_no_zero_division:
  "diff_loop new_pagerank pagerank vs acc \<noteq> Inl ZeroDivisionError"
  by (induction vs arbitrary: acc) (auto simp: dict_get_def split: option.splits sum.splits)

lemma node_loop_no_zero_division:
  "vs = [] \<or> n \<noteq> 0 \<Longrightarrow>
   node_loop (build_index edges) d n s pagerank vs new \<noteq> Inl ZeroDivisionError"
proof (induction vs arbitrary: new)
  case Nil
  then show ?case by simp
next
  case (Cons v vs)
  have "in_sum_loop pagerank (outdegree (build_index edges))
          (inbound_links (build_index edges) v) 0 \<noteq> Inl ZeroDivisionError"
    by (rule in_sum_loop_no_zero_division) (simp add: inbound_outdegree_nonzero)
  moreover have "n \<noteq> 0" using Cons.prems by simp
  moreover have "\<And>new. node_loop (build_index edges) d n s pagerank vs new \<noteq> Inl ZeroDivisionError"
    using Cons.IH \<open>n \<noteq> 0\<close> by simp
  ultimately show ?case
    by (auto simp: py_truediv_def split: sum.splits)
qed

lemma pagerank_pass_no_zero_division:
  "pagerank_pass ns (build_index edges) d pagerank \<noteq> Inl ZeroDivisionError"
proof -
  have "node_loop (build_index edges) d (length ns) s pagerank ns [] \<noteq> Inl ZeroDivisionError" for s
    by (rule node_loop_no_zero_division) simp
  then show ?thesis
    by (auto simp: pagerank_pass_def Let_def diff_loop_no_zero_division split: sum.splits)
qed

lemma iterations_no_zero_division:
  "iterations k ns (build_index edges) d tol i pagerank \<noteq> Inl ZeroDivisionError"
  using pagerank_pass_no_zero_division [of ns edges d]
  by (induction k arbitrary: i pagerank) (auto split: sum.splits)

lemma init_pagerank_no_zero_division:
  "rest = [] \<or> n \<noteq> 0 \<Longrightarrow> init_pagerank rest n acc \<noteq> Inl ZeroDivisionError"
  by (induction rest arbitrary: acc) (auto simp: py_truediv_def)

lemma pagerank_run_no_zero_division:
  "pagerank_run ns edges d K tol \<noteq> Inl ZeroDivisionError"
  using init_pagerank_no_zero_division [of ns "length ns" "[]"]
        iterations_no_zero_division [of "nat K" ns edges d tol 0]
  by (auto simp: pagerank_run_def split: sum.splits)

text \<open>
  Claim C3. In the index built from any edge list, every node \<open>u\<close> listed in some
  \<^verbatim>\<open>inbound_links[v]\<close> has \<^verbatim>\<open>outdegree[u] >= 1\<close>. So the inner loop of lines 52-54 never
  raises \<^verbatim>\<open>ZeroDivisionError\<close>, whatever the score map and the accumulator, and neither does
  a whole run, for any iteration order, damping, iteration count and tolerance.
\<close>

theorem sources_have_outdegree:
  "(u \<in> set (inbound_links (build_index edges) v) \<longrightarrow> 1 \<le> outdegree (build_index edges) u)
   \<and> in_sum_loop pagerank (outdegree (build_index edges)) (inbound_links (build_index edges) v) acc
       \<noteq> Inl ZeroDivisionError
   \<and> pagerank_run ns edges d K tol \<noteq> Inl ZeroDivisionError
   \<and> compute_pagerank_inbound edges d K tol \<noteq> Inl ZeroDivisionError"
proof -
  have "u \<in> set (inbound_links (build_index edges) v) \<longrightarrow> 1 \<le> outdegree (build_index edges) u"
    using inbound_outdegree_nonzero [of u edges v] by auto
  moreover have "in_sum_loop pagerank (outdegree (build_index edges))
      (inbound_links (build_index edges) v) acc \<noteq> Inl ZeroDivisionError"
    by (rule in_sum_loop_no_zero_division) (simp add: inbound_outdegree_nonzero)
  moreover have "compute_pagerank_inbound edges d K tol \<noteq> Inl ZeroDivisionError"
    using pagerank_run_no_zero_division [of "all_nodes edges" edges d K tol]
    by (auto simp: compute_pagerank_inbound_def split: sum.splits)
  ultimately show ?thesis
    using pagerank_run_no_zero_division by blast
qed

theorem sources_have_outdegree_witness:
  "(1::int) \<in> set (inbound_links (build_index [(1, 2), (3, 2), (2, 1)]) 2)
   \<and> 1 \<le> outdegree (build_index [(1, 2), (3, 2), (2, 1)]) (1::int)
   \<and> in_sum_loop [(1, 1/3), (2, 1/3), (3, 1/3)] (outdegree (build_index [(1, 2), (3, 2), (2, 1)]))
        (inbound_links (build_index [(1, 2), (3, 2), (2, 1)]) (2::int)) 0 \<noteq> Inl ZeroDivisionError"
  using sources_have_outdegree [of "1::int" "[(1, 2), (3, 2), (2, 1)]" 2
          "[(1, 1/3), (2, 1/3), (3, 1/3)]" 0]
  by (simp add: index_eval)

section \<open>What a run returns\<close>

lemma l1_diff_nonneg: "0 \<le> l1_diff ns f h"
  unfolding l1_diff_def by (rule sum_list_nonneg) auto

lemma pagerank_run_formula:
  assumes "enumerates ns edges"
  shows "pagerank_run ns edges d K tol
           = (case formula_loop (nat K) ns (build_index edges) d tol 0 (uniform_start ns) of
                (pr', p, c) \<Rightarrow> Inr \<lparr>scores = tabulate ns pr', passes = p, converged = c\<rparr>)"
  by (simp add: pagerank_run_tabulate [OF assms] uniform_start_def)

lemma pagerank_run_stops:
  assumes "enumerates ns edges" "j < nat K" "diff_at ns (build_index edges) d j < tol"
    and "\<And>m. m < j \<Longrightarrow> \<not> diff_at ns (build_index edges) d m < tol"
  shows "pagerank_run ns edges d K tol
           = Inr \<lparr>scores = tabulate ns (pagerank_iterate ns (build_index edges) d (Suc j)),
                  passes = Suc j, converged = True\<rparr>"
proof -
  have "formula_loop (nat K) ns (build_index edges) d tol 0 (uniform_start ns)
          = ((update_formula ns (build_index edges) d ^^ Suc j) (uniform_start ns), 0 + Suc j, True)"
    using assms(2-4) unfolding diff_at_def pagerank_iterate_def
    by (intro formula_loop_stops) auto
  then show ?thesis
    by (simp add: pagerank_run_formula [OF assms(1)] pagerank_iterate_def)
qed

lemma pagerank_run_exhausts:
  assumes "enumerates ns edges"
    and "\<And>m. m < nat K \<Longrightarrow> \<not> diff_at ns (build_index edges) d m < tol"
  shows "pagerank_run ns edges d K tol
           = Inr \<lparr>scores = tabulate ns (pagerank_iterate ns (build_index edges) d (nat K)),
                  passes = nat K, converged = False\<rparr>"
proof -
  have "formula_loop (nat K) ns (build_index edges) d tol 0 (uniform_start ns)
          = ((update_formula ns (build_index edges) d ^^ nat K) (uniform_start ns), 0 + nat K, False)"
    using assms(2) unfolding diff_at_def pagerank_iterate_def
    by (intro formula_loop_exhausts) auto
  then show ?thesis
    by (simp add: pagerank_run_formula [OF assms(1)] pagerank_iterate_def)
qed

lemma diff_at_nonneg: "\<not> diff_at ns g d j < 0"
  using l1_diff_nonneg [of ns] by (simp add: diff_at_def not_less)

text \<open>
  Claim C1. For every iteration order \<open>ns\<close> of the node set and every damping \<open>d\<close>, one pass
  on a score map with the keys \<open>ns\<close> succeeds, and the map it builds holds for every node
  \<open>v\<close> the value \<open>(1 - d) * (sum_pr / n) + d * in_sum(v)\<close>, where \<open>sum_pr\<close> is the sum of
  the values of the previous map and every term reads the previous map; the second
  component is the L1 distance from the previous map. With \<open>max_iter = 1\<close> and \<open>tol = 0\<close>
  the run returns one application of the update to the uniform \<open>1/n\<close> start.
\<close>

theorem pass_applies_update_formula:
  assumes "enumerates ns edges"
  shows "pagerank_pass ns (build_index edges) d (tabulate ns pr)
           = Inr (tabulate ns (update_formula ns (build_index edges) d pr),
                  l1_diff ns (update_formula ns (build_index edges) d pr) pr)
         \<and> (\<forall>v\<in>set ns.
               dict_get (tabulate ns (update_formula ns (build_index edges) d pr)) v
                 = Inr ((1 - d) * (sum_list (map snd (tabulate ns pr)) / of_nat (length ns))
                        + d * (\<Sum>u\<leftarrow>inbound_links (build_index edges) v.
                                 pr u / of_nat (outdegree (build_index edges) u))))
         \<and> pagerank_run ns edges d 1 0
             = Inr \<lparr>scores = tabulate ns (update_formula ns (build_index edges) d
                                           (\<lambda>_. 1 / of_nat (length ns))),
                    passes = 1, converged = False\<rparr>"
proof (intro conjI ballI)
  show "pagerank_pass ns (build_index edges) d (tabulate ns pr)
           = Inr (tabulate ns (update_formula ns (build_index edges) d pr),
                  l1_diff ns (update_formula ns (build_index edges) d pr) pr)"
    by (rule pagerank_pass_tabulate [OF assms])
next
  fix v assume "v \<in> set ns"
  then show "dict_get (tabulate ns (update_formula ns (build_index edges) d pr)) v
                 = Inr ((1 - d) * (sum_list (map snd (tabulate ns pr)) / of_nat (length ns))
                        + d * (\<Sum>u\<leftarrow>inbound_links (build_index edges) v.
                                 pr u / of_nat (outdegree (build_index edges) u)))"
    by (simp add: dict_get_tabulate update_formula_def in_sum_formula_def sum_list_snd_tabulate)
next
  have "pagerank_run ns edges d 1 0
          = Inr \<lparr>scores = tabulate ns (pagerank_iterate ns (build_index edges) d (nat 1)),
                 passes = nat 1, converged = False\<rparr>"
    by (rule pagerank_run_exhausts [OF assms]) (rule diff_at_nonneg)
  then show "pagerank_run ns edges d 1 0
             = Inr \<lparr>scores = tabulate ns (update_formula ns (build_index edges) d
                                           (\<lambda>_. 1 / of_nat (length ns))),
                    passes = 1, converged = False\<rparr>"
    by (simp add: pagerank_iterate_def uniform_start_def)
qed

theorem pass_applies_update_formula_witness:
  "enumerates [1, 2, 3 :: int] [(1, 2), (3, 2), (2, 1)]
   \<and> pagerank_pass [1, 2, 3 :: int] (build_index [(1, 2), (3, 2), (2, 1)]) (85 / 100)
         [(1, 1 / 2), (2, 1 / 3), (3, 1 / 6)]
       = Inr ([(1, 1 / 3), (2, 37 / 60), (3, 1 / 20)], 1 / 6 + 17 / 60 + 7 / 60)
   \<and> dict_get [(1, 1 / 3), (2, 37 / 60), (3, 1 / 20)] (2 :: int)
       = Inr ((1 - 85 / 100) * ((1 / 2 + 1 / 3 + 1 / 6) / 3)
              + 85 / 100 * ((1 / 2) / 1 + (1 / 6) / 1) :: rat)
   \<and> pagerank_run [1, 2, 3 :: int] [(1, 2), (3, 2), (2, 1)] (85 / 100) 1 0
       = Inr \<lparr>scores = [(1, 1 / 3), (2, 37 / 60), (3, 1 / 20)], passes = 1, converged = False\<rparr>"
proof -
  have h: "enumerates [1, 2, 3 :: int] [(1, 2), (3, 2), (2, 1)]"
    by (auto simp: enumerates_def node_set_def)
  show ?thesis
    using h pass_applies_update_formula [OF h, of "85 / 100"
            "\<lambda>v. if v = 1 then 1 / 2 else if v = 2 then 1 / 3 else 1 / 6"]
    by (simp add: tabulate_def update_formula_def in_sum_formula_def l1_diff_def dict_get_def
          index_eval)
qed

lemma pagerank_pass_iterate:
  assumes "enumerates ns edges"
  shows "pagerank_pass ns (build_index edges) d
           (tabulate ns (pagerank_iterate ns (build_index edges) d j))
         = Inr (tabulate ns (pagerank_iterate ns (build_index edges) d (Suc j)),
                diff_at ns (build_index edges) d j)"
  by (simp add: pagerank_pass_tabulate [OF assms] pagerank_iterate_def diff_at_def)

text \<open>
  Claim C2. Write \<open>pagerank_iterate j\<close> for the map after \<open>j\<close> passes and \<open>diff_at j\<close> for
  the \<^verbatim>\<open>diff\<close> the source computes in pass \<open>j\<close> (counted from 0), which is the L1 distance
  of map \<open>j + 1\<close> from map \<open>j\<close>. If pass \<open>j < max_iter\<close> is the first with
  \<open>diff < tol\<close>, the run returns the map built in that pass after \<open>j + 1\<close> passes, through
  the \<^verbatim>\<open>break\<close>. If no pass below \<open>max_iter\<close> has \<open>diff < tol\<close>, the run returns the map of
  pass \<open>max_iter\<close>, as a result and not as an error.
\<close>

theorem stops_on_small_diff_or_exhausts:
  assumes "enumerates ns edges"
  shows "pagerank_pass ns (build_index edges) d
           (tabulate ns (pagerank_iterate ns (build_index edges) d j))
         = Inr (tabulate ns (pagerank_iterate ns (build_index edges) d (Suc j)),
                diff_at ns (build_index edges) d j)
       \<and> (j < nat K \<and> diff_at ns (build_index edges) d j < tol
            \<and> (\<forall>m<j. \<not> diff_at ns (build_index edges) d m < tol)
          \<longrightarrow> pagerank_run ns edges d K tol
                = Inr \<lparr>scores = tabulate ns (pagerank_iterate ns (build_index edges) d (Suc j)),
                       passes = Suc j, converged = True\<rparr>)
       \<and> ((\<forall>m<nat K. \<not> diff_at ns (build_index edges) d m < tol)
          \<longrightarrow> pagerank_run ns edges d K tol
                = Inr \<lparr>scores = tabulate ns (pagerank_iterate ns (build_index edges) d (nat K)),
                       passes = nat K, converged = False\<rparr>)"
  using pagerank_pass_iterate [OF assms] pagerank_run_stops [OF assms]
        pagerank_run_exhausts [OF assms]
  by blast

theorem stops_on_small_diff_or_exhausts_witness:
  "enumerates [1, 2, 3 :: int] [(1, 2), (2, 3), (3, 1), (1, 3)]
   \<and> (1 :: nat) < nat 100
   \<and> \<not> diff_at [1, 2, 3 :: int] (build_index [(1, 2), (2, 3), (3, 1), (1, 3)]) (1 / 2) 0 < 1 / 10
   \<and> diff_at [1, 2, 3 :: int] (build_index [(1, 2), (2, 3), (3, 1), (1, 3)]) (1 / 2) 1 < 1 / 10
   \<and> pagerank_run [1, 2, 3 :: int] [(1, 2), (2, 3), (3, 1), (1, 3)] (1 / 2) 100 (1 / 10)
       = Inr \<lparr>scores = [(1, 3 / 8), (2, 1 / 4), (3, 3 / 8)], passes = 2, converged = True\<rparr>
   \<and> \<not> diff_at [1, 2, 3 :: int] (build_index [(1, 2), (2, 3), (3, 1), (1, 3)]) (1 / 2) 0 < 1 / 100
   \<and> \<not> diff_at [1, 2, 3 :: int] (build_index [(1, 2), (2, 3), (3, 1), (1, 3)]) (1 / 2) 1 < 1 / 100
   \<and> pagerank_run [1, 2, 3 :: int] [(1, 2), (2, 3), (3, 1), (1, 3)] (1 / 2) 2 (1 / 100)
       = Inr \<lparr>scores = [(1, 3 / 8), (2, 1 / 4), (3, 3 / 8)], passes = 2, converged = False\<rparr>"
proof -
  let ?ns = "[1, 2, 3 :: int]"
  let ?es = "[(1, 2), (2, 3), (3, 1), (1, 3 :: int)]"
  let ?g = "build_index ?es"
  have h: "enumerates ?ns ?es"
    by (auto simp: enumerates_def node_set_def)
  have d0: "diff_at ?ns ?g (1 / 2) 0 = 1 / 6"
    by (simp add: iterate_eval)
  have d1: "diff_at ?ns ?g (1 / 2) 1 = 1 / 12"
    by (simp add: iterate_eval)
  have it: "tabulate ?ns (pagerank_iterate ?ns ?g (1 / 2) 2) = [(1, 3 / 8), (2, 1 / 4), (3, 3 / 8)]"
    by (simp add: iterate_eval numeral_2_eq_2)
  have lt1: "\<forall>m<1::nat. \<not> diff_at ?ns ?g (1 / 2) m < 1 / 10"
    by (simp add: d0)
  have lt2: "\<forall>m<nat 2. \<not> diff_at ?ns ?g (1 / 2) m < 1 / 100"
  proof (intro allI impI)
    fix m :: nat assume "m < nat 2"
    then have "m = 0 \<or> m = 1" by auto
    then show "\<not> diff_at ?ns ?g (1 / 2) m < 1 / 100"
      using d0 d1 by auto
  qed
  show ?thesis
    using h d0 d1 lt1 lt2 it
      stops_on_small_diff_or_exhausts [OF h, of "1 / 2" 1 100 "1 / 10"]
      stops_on_small_diff_or_exhausts [OF h, of "1 / 2" 0 2 "1 / 100"]
    by (simp add: numeral_2_eq_2)
qed

lemma formula_loop_result:
  assumes "enumerates ns edges"
  obtains pr' p c where
    "formula_loop (nat K) ns (build_index edges) d tol 0 (uniform_start ns) = (pr', p, c)"
    "pagerank_run ns edges d K tol = Inr \<lparr>scores = tabulate ns pr', passes = p, converged = c\<rparr>"
proof -
  obtain pr' p c where
    e: "formula_loop (nat K) ns (build_index edges) d tol 0 (uniform_start ns) = (pr', p, c)"
    by (cases "formula_loop (nat K) ns (build_index edges) d tol 0 (uniform_start ns)") auto
  then have "pagerank_run ns edges d K tol
               = Inr \<lparr>scores = tabulate ns pr', passes = p, converged = c\<rparr>"
    by (simp add: pagerank_run_formula [OF assms])
  with e that show ?thesis by blast
qed

lemma sum_list_uniform_start: "ns \<noteq> [] \<Longrightarrow> (\<Sum>u\<leftarrow>ns. uniform_start ns u) = 1"
  by (simp add: uniform_start_def sum_list_triv)

text \<open>
  Claim C4. When the graph has no dangling node, one pass preserves the total of the
  scores exactly, and the map a run returns sums to exactly 1 (for a graph with at least
  one edge), whatever the damping, the iteration count and the tolerance. The arithmetic is
  exact: the drift of floating-point sums is not part of the statement.
\<close>

theorem total_preserved_without_dangling:
  assumes "enumerates ns edges" "no_dangling edges"
  shows "(\<exists>new diff. pagerank_pass ns (build_index edges) d (tabulate ns pr) = Inr (new, diff)
            \<and> sum_list (map snd new) = sum_list (map snd (tabulate ns pr)))
       \<and> (\<exists>r. pagerank_run ns edges d K tol = Inr r
            \<and> sum_list (map snd (scores r)) = (if edges = [] then 0 else 1))"
proof
  show "\<exists>new diff. pagerank_pass ns (build_index edges) d (tabulate ns pr) = Inr (new, diff)
            \<and> sum_list (map snd new) = sum_list (map snd (tabulate ns pr))"
    by (simp add: pagerank_pass_tabulate [OF assms(1)] sum_list_snd_tabulate
          update_formula_preserves_sum [OF assms])
next
  let ?g = "build_index edges"
  obtain pr' p c where
    e: "formula_loop (nat K) ns ?g d tol 0 (uniform_start ns) = (pr', p, c)" and
    r: "pagerank_run ns edges d K tol = Inr \<lparr>scores = tabulate ns pr', passes = p, converged = c\<rparr>"
    using formula_loop_result [OF assms(1)] by blast
  have "(\<Sum>u\<leftarrow>ns. pr' u) = (if edges = [] then 0 else 1)"
  proof (cases "edges = []")
    case True
    then have "ns = []" using assms(1) by (simp add: enumerates_def node_set_def)
    with True show ?thesis by simp
  next
    case False
    then have "ns \<noteq> []" using assms(1) by (auto simp: enumerates_def node_set_def)
    then have "(\<Sum>u\<leftarrow>ns. uniform_start ns u) = 1" by (rule sum_list_uniform_start)
    then have "(\<Sum>u\<leftarrow>ns. fst (formula_loop (nat K) ns ?g d tol 0 (uniform_start ns)) u) = 1"
      by (rule formula_loop_invariant [where P = "\<lambda>pr. (\<Sum>u\<leftarrow>ns. pr u) = 1"])
         (simp add: update_formula_preserves_sum [OF assms])
    with False e show ?thesis by simp
  qed
  then show "\<exists>r. pagerank_run ns edges d K tol = Inr r
            \<and> sum_list (map snd (scores r)) = (if edges = [] then 0 else 1)"
    by (simp add: r sum_list_snd_tabulate)
qed

theorem total_preserved_without_dangling_witness:
  "enumerates [1, 2, 3 :: int] [(1, 2), (2, 3), (3, 1), (1, 3)]
   \<and> no_dangling [(1, 2), (2, 3), (3, 1), (1, 3 :: int)]
   \<and> (\<exists>new diff. pagerank_pass [1, 2, 3 :: int] (build_index [(1, 2), (2, 3), (3, 1), (1, 3)])
          (85 / 100) [(1, 1 / 2), (2, 1 / 4), (3, 1 / 4)] = Inr (new, diff)
        \<and> sum_list (map snd new) = 1 / 2 + 1 / 4 + 1 / 4)
   \<and> (\<exists>r. pagerank_run [1, 2, 3 :: int] [(1, 2), (2, 3), (3, 1), (1, 3)] (85 / 100) 100
          (1 / 100000000) = Inr r
        \<and> sum_list (map snd (scores r)) = 1)"
proof -
  have h: "enumerates [1, 2, 3 :: int] [(1, 2), (2, 3), (3, 1), (1, 3)]"
    by (auto simp: enumerates_def node_set_def)
  have n: "no_dangling [(1, 2), (2, 3), (3, 1), (1, 3 :: int)]"
    by (simp add: no_dangling_def)
  show ?thesis
    using h n total_preserved_without_dangling [OF h n, of "85 / 100"
            "\<lambda>v. if v = 1 then 1 / 2 else 1 / 4" 100 "1 / 100000000"]
    by (simp add: tabulate_def)
qed

lemma update_formula_nonneg:
  assumes "0 \<le> d" "d \<le> 1" "\<And>u. 0 \<le> pr u"
  shows "0 \<le> update_formula ns g d pr v"
proof -
  have "0 \<le> (\<Sum>u\<leftarrow>ns. pr u)"
    by (rule sum_list_nonneg) (auto simp: assms(3))
  then have "0 \<le> (1 - d) * ((\<Sum>u\<leftarrow>ns. pr u) / of_nat (length ns))"
    using assms(2) by simp
  moreover have "0 \<le> in_sum_formula g pr v"
    unfolding in_sum_formula_def by (rule sum_list_nonneg) (auto simp: assms(3))
  then have "0 \<le> d * in_sum_formula g pr v"
    using assms(1) by simp
  ultimately show ?thesis by (simp add: update_formula_def)
qed

lemma pagerank_iterate_nonneg:
  assumes "0 \<le> d" "d \<le> 1"
  shows "0 \<le> pagerank_iterate ns g d j v"
proof (induction j arbitrary: v)
  case 0
  show ?case by (simp add: pagerank_iterate_def uniform_start_def)
next
  case (Suc j)
  have "0 \<le> update_formula ns g d (pagerank_iterate ns g d j) v"
    by (rule update_formula_nonneg [OF assms]) (rule Suc.IH)
  then show ?case by (simp add: pagerank_iterate_def)
qed

text \<open>
  Claim C7. For a damping in \<open>[0, 1]\<close>, every score is at least 0: in the uniform start, in
  the map of every pass, and in the map a run returns, for every graph, iteration count and
  tolerance.
\<close>

theorem scores_nonnegative:
  assumes "enumerates ns edges" "0 \<le> d" "d \<le> 1"
  shows "(\<forall>j. \<forall>x \<in> snd ` set (tabulate ns (pagerank_iterate ns (build_index edges) d j)). 0 \<le> x)
       \<and> (\<exists>r. pagerank_run ns edges d K tol = Inr r \<and> (\<forall>x \<in> snd ` set (scores r). 0 \<le> x))"
proof
  show "\<forall>j. \<forall>x \<in> snd ` set (tabulate ns (pagerank_iterate ns (build_index edges) d j)). 0 \<le> x"
    using pagerank_iterate_nonneg [OF assms(2,3)] by (auto simp: tabulate_def)
next
  let ?g = "build_index edges"
  obtain pr' p c where
    e: "formula_loop (nat K) ns ?g d tol 0 (uniform_start ns) = (pr', p, c)" and
    r: "pagerank_run ns edges d K tol = Inr \<lparr>scores = tabulate ns pr', passes = p, converged = c\<rparr>"
    using formula_loop_result [OF assms(1)] by blast
  have "\<forall>u. 0 \<le> uniform_start ns u" by (simp add: uniform_start_def)
  then have "\<forall>u. 0 \<le> fst (formula_loop (nat K) ns ?g d tol 0 (uniform_start ns)) u"
    by (rule formula_loop_invariant [where P = "\<lambda>pr. \<forall>u. 0 \<le> pr u"])
       (simp add: update_formula_nonneg [OF assms(2,3)])
  then have "\<forall>u. 0 \<le> pr' u" using e by simp
  then show "\<exists>r. pagerank_run ns edges d K tol = Inr r \<and> (\<forall>x \<in> snd ` set (scores r). 0 \<le> x)"
    by (auto simp: r tabulate_def)
qed

theorem scores_nonnegative_witness:
  "enumerates [1, 2 :: int] [(1, 2)] \<and> (0 :: rat) \<le> 1 / 2 \<and> (1 / 2 :: rat) \<le> 1
   \<and> tabulate [1, 2 :: int] (pagerank_iterate [1, 2] (build_index [(1, 2)]) (1 / 2) 1)
       = [(1, 1 / 4), (2, 1 / 2)]
   \<and> (0 :: rat) \<le> 1 / 4
   \<and> pagerank_run [1, 2 :: int] [(1, 2)] (1 / 2) 2 (1 / 100)
       = Inr \<lparr>scores = [(1, 3 / 16), (2, 5 / 16)], passes = 2, converged = False\<rparr>
   \<and> (0 :: rat) \<le> 3 / 16 \<and> (0 :: rat) \<le> 5 / 16"
proof -
  have h: "enumerates [1, 2 :: int] [(1, 2)]"
    by (auto simp: enumerates_def node_set_def)
  have it: "tabulate [1, 2 :: int] (pagerank_iterate [1, 2] (build_index [(1, 2)]) (1 / 2) 1)
              = [(1, 1 / 4), (2, 1 / 2)]"
    by (simp add: iterate_eval)
  have r: "pagerank_run [1, 2 :: int] [(1, 2)] (1 / 2) 2 (1 / 100)
             = Inr \<lparr>scores = [(1, 3 / 16), (2, 5 / 16)], passes = 2, converged = False\<rparr>"
    by (simp add: run_eval numeral_2_eq_2)
  show ?thesis
    using h it r scores_nonnegative [OF h, of "1 / 2" 2 "1 / 100"]
    by simp
qed

section \<open>The empty graph and the configuration\<close>

lemma pagerank_pass_empty: "pagerank_pass [] g d [] = Inr ([], 0)"
  by (simp add: pagerank_pass_def)

lemma iterations_empty:
  "iterations k [] g d tol i []
     = Inr \<lparr>scores = [], passes = (if k = 0 then i else if 0 < tol then Suc i else i + k),
            converged = (k \<noteq> 0 \<and> 0 < tol)\<rparr>"
  by (induction k arbitrary: i) (auto simp: pagerank_pass_empty)

text \<open>
  Claim C5, as the code has it. For the empty edge list the run returns the empty score map
  and raises nothing: no division is evaluated, since both divisions sit inside loops over
  the nodes. There is no test of \<open>n = 0\<close>: the loop body still runs, once when
  \<open>0 < tol\<close> (the \<^verbatim>\<open>diff\<close> of the empty map is 0 and the \<^verbatim>\<open>break\<close> is taken),
  \<open>max_iter\<close> times when \<open>tol \<le> 0\<close>, and not at all only when \<open>max_iter \<le> 0\<close>.
\<close>

theorem empty_graph_returns_empty_map:
  "compute_pagerank_inbound [] d K tol = Inr []
   \<and> pagerank_run (all_nodes []) [] d K tol
       = Inr \<lparr>scores = [],
              passes = (if K \<le> 0 then 0 else if 0 < tol then 1 else nat K),
              converged = (0 < K \<and> 0 < tol)\<rparr>"
proof -
  have r: "pagerank_run [] [] d K tol
          = Inr \<lparr>scores = [],
                 passes = (if K \<le> 0 then 0 else if 0 < tol then 1 else nat K),
                 converged = (0 < K \<and> 0 < tol)\<rparr>"
    by (auto simp: pagerank_run_def iterations_empty)
  show ?thesis
    by (simp add: compute_pagerank_inbound_def all_nodes_def r)
qed

text \<open>
  The claim as stated fails at the default configuration: on the empty edge list the loop
  body runs once and the run leaves through the \<^verbatim>\<open>break\<close>.
\<close>

theorem empty_graph_runs_one_pass:
  "pagerank_run (all_nodes []) ([] :: int edge list) (85 / 100) 100 (1 / 100000000)
     \<noteq> Inr \<lparr>scores = [], passes = 0, converged = False\<rparr>
   \<and> pagerank_run (all_nodes []) ([] :: int edge list) (85 / 100) 100 (1 / 100000000)
     = Inr \<lparr>scores = [], passes = 1, converged = True\<rparr>"
  by (simp add: all_nodes_def pagerank_run_def iterations_empty)

lemma map_fst_tabulate: "map fst (tabulate ns pr) = ns"
  by (simp add: tabulate_def comp_def)

lemma compute_pagerank_inbound_formula:
  "compute_pagerank_inbound edges d K tol
     = Inr (tabulate (all_nodes edges)
             (fst (formula_loop (nat K) (all_nodes edges) (build_index edges) d tol 0
                    (uniform_start (all_nodes edges)))))"
  by (simp add: compute_pagerank_inbound_def pagerank_run_formula [OF enumerates_all_nodes]
        split: prod.splits)

text \<open>
  Claim C6, as the code has it. The source validates nothing: for every damping, iteration
  count and tolerance the computation returns a score map with one entry per node, never an
  error. With \<open>max_iter \<le> 0\<close> no pass runs and the uniform start is returned; with
  \<open>tol \<le> 0\<close> the \<^verbatim>\<open>break\<close> is never taken and \<open>max_iter\<close> passes run.
\<close>

theorem no_configuration_is_rejected:
  "(\<exists>m. compute_pagerank_inbound edges d K tol = Inr m \<and> map fst m = all_nodes edges)
   \<and> (K \<le> 0 \<longrightarrow>
        compute_pagerank_inbound edges d K tol
          = Inr (tabulate (all_nodes edges) (uniform_start (all_nodes edges)))
        \<and> pagerank_run (all_nodes edges) edges d K tol
          = Inr \<lparr>scores = tabulate (all_nodes edges) (uniform_start (all_nodes edges)),
                 passes = 0, converged = False\<rparr>)
   \<and> (tol \<le> 0 \<longrightarrow>
        pagerank_run (all_nodes edges) edges d K tol
          = Inr \<lparr>scores = tabulate (all_nodes edges)
                            (pagerank_iterate (all_nodes edges) (build_index edges) d (nat K)),
                 passes = nat K, converged = False\<rparr>)"
proof (intro conjI impI)
  show "\<exists>m. compute_pagerank_inbound edges d K tol = Inr m \<and> map fst m = all_nodes edges"
    by (simp add: compute_pagerank_inbound_formula map_fst_tabulate)
next
  assume "K \<le> 0"
  then show "compute_pagerank_inbound edges d K tol
          = Inr (tabulate (all_nodes edges) (uniform_start (all_nodes edges)))"
    by (simp add: compute_pagerank_inbound_formula)
next
  assume "K \<le> 0"
  then show "pagerank_run (all_nodes edges) edges d K tol
          = Inr \<lparr>scores = tabulate (all_nodes edges) (uniform_start (all_nodes edges)),
                 passes = 0, converged = False\<rparr>"
    by (simp add: pagerank_run_formula [OF enumerates_all_nodes])
next
  assume t: "tol \<le> 0"
  show "pagerank_run (all_nodes edges) edges d K tol
          = Inr \<lparr>scores = tabulate (all_nodes edges)
                            (pagerank_iterate (all_nodes edges) (build_index edges) d (nat K)),
                 passes = nat K, converged = False\<rparr>"
  proof (rule pagerank_run_exhausts [OF enumerates_all_nodes])
    fix m
    have "0 \<le> diff_at (all_nodes edges) (build_index edges) d m"
      by (simp add: diff_at_def l1_diff_nonneg)
    with t show "\<not> diff_at (all_nodes edges) (build_index edges) d m < tol" by simp
  qed
qed

theorem no_configuration_is_rejected_witness:
  "(0 :: int) \<le> 0
   \<and> compute_pagerank_inbound [(1 :: int, 2)] 2 0 (1 / 100000000) = Inr [(1, 1 / 2), (2, 1 / 2)]
   \<and> pagerank_run (all_nodes [(1 :: int, 2)]) [(1, 2)] 2 0 (1 / 100000000)
       = Inr \<lparr>scores = [(1, 1 / 2), (2, 1 / 2)], passes = 0, converged = False\<rparr>
   \<and> (- 1 :: rat) \<le> 0
   \<and> pagerank_run (all_nodes [(1 :: int, 2)]) [(1, 2)] (85 / 100) 2 (- 1)
       = Inr \<lparr>scores = [(1, 69 / 1600), (2, 171 / 1600)], passes = 2, converged = False\<rparr>"
  using no_configuration_is_rejected [of "[(1 :: int, 2)]" 2 0 "1 / 100000000"]
        no_configuration_is_rejected [of "[(1 :: int, 2)]" "85 / 100" 2 "- 1"]
  by (simp add: all_nodes_def iterate_eval numeral_2_eq_2)

text \<open>
  The claim as stated fails: a damping of 2, an iteration count of 0 and a tolerance of 0
  are each accepted, and a score map comes back (with a negative score for the damping 2).
\<close>

theorem invalid_configuration_accepted:
  "compute_pagerank_inbound [(1 :: int, 2)] 2 1 (1 / 100000000) = Inr [(1, - 1 / 2), (2, 1 / 2)]
   \<and> compute_pagerank_inbound [(1 :: int, 2)] (85 / 100) 0 (1 / 100000000)
       = Inr [(1, 1 / 2), (2, 1 / 2)]
   \<and> compute_pagerank_inbound [(1 :: int, 2)] (85 / 100) 1 0 = Inr [(1, 3 / 40), (2, 1 / 2)]"
  by (simp add: compute_pagerank_inbound_def all_nodes_def run_eval)

section \<open>The display loop of the main program\<close>

lemma list_index_error: "list_index xs i = Inl e \<Longrightarrow> e = IndexError"
  by (auto simp: list_index_def split: if_splits)

lemma list_index_nat_ok: "list_index xs (int i) = Inr x \<Longrightarrow> i < length xs"
  by (auto simp: list_index_def split: if_splits)

lemma display_line_error: "display_line sorted_pr node_names i = Inl e \<Longrightarrow> e = IndexError"
  by (auto simp: display_line_def split: sum.splits prod.splits if_splits dest: list_index_error)

lemma display_line_ok: "display_line sorted_pr node_names i = Inr l \<Longrightarrow> i < length sorted_pr"
  by (auto simp: display_line_def split: sum.splits prod.splits if_splits dest: list_index_nat_ok)

lemma display_loop_error:
  "snd (display_loop is sorted_pr node_names) = Some e \<Longrightarrow> e = IndexError"
  by (induction "is") (auto split: sum.splits prod.splits dest: display_line_error)

lemma display_loop_fails:
  "\<exists>i\<in>set is. length sorted_pr \<le> i \<Longrightarrow>
   snd (display_loop is sorted_pr node_names) = Some IndexError"
proof (induction "is")
  case Nil
  then show ?case by simp
next
  case (Cons i rest)
  show ?case
  proof (cases "display_line sorted_pr node_names i")
    case (Inl e)
    then show ?thesis by (simp add: display_line_error)
  next
    case (Inr l)
    then have "i < length sorted_pr" by (rule display_line_ok)
    with Cons.prems have "\<exists>i\<in>set rest. length sorted_pr \<le> i" by auto
    then have "snd (display_loop rest sorted_pr node_names) = Some IndexError"
      by (rule Cons.IH)
    with Inr show ?thesis by (auto split: prod.splits)
  qed
qed

lemma display_loop_printed:
  "length (fst (display_loop is sorted_pr node_names))
     \<le> length (filter (\<lambda>i. i < length sorted_pr) is)"
proof (induction "is")
  case Nil
  then show ?case by simp
next
  case (Cons i rest)
  show ?case
  proof (cases "display_line sorted_pr node_names i")
    case (Inl e)
    then show ?thesis by simp
  next
    case (Inr l)
    then have "i < length sorted_pr" by (rule display_line_ok)
    with Inr Cons.IH show ?thesis by (auto split: prod.splits)
  qed
qed

lemma length_filter_less_upt: "length (filter (\<lambda>i. i < n) [0..<m]) = min n m"
  by (induction m) auto

lemma length_compute_pagerank_inbound:
  "compute_pagerank_inbound edges d K tol = Inr m \<Longrightarrow> length m = card (node_set edges)"
proof -
  assume "compute_pagerank_inbound edges d K tol = Inr m"
  then have "length m = length (all_nodes edges)"
    by (auto simp: compute_pagerank_inbound_formula tabulate_def)
  also have "\<dots> = card (set (all_nodes edges))"
  proof -
    have "distinct (all_nodes edges)" by (simp add: all_nodes_def)
    then show ?thesis by (rule distinct_card [symmetric])
  qed
  also have "\<dots> = card (node_set edges)"
    using enumerates_all_nodes [of edges] by (simp add: enumerates_def)
  finally show ?thesis .
qed

text \<open>
  Claim C10. The display loop reads \<^verbatim>\<open>sorted_pr[i]\<close> for \<open>i = 0, ..., 19\<close> whatever the
  length of the list. For a graph with fewer than 20 nodes the main program therefore ends
  with \<^verbatim>\<open>IndexError\<close>, after printing at most one line per node, instead of ending
  normally with a shorter listing.
\<close>

theorem top20_fails_below_20_nodes:
  assumes "card (node_set edges) < 20"
  shows "snd (main_program edges node_names) = Some IndexError
       \<and> length (fst (main_program edges node_names)) \<le> card (node_set edges)"
proof -
  obtain m where m: "compute_pagerank_inbound edges (85 / 100) 100 (1 / 100000000) = Inr m"
    by (simp add: compute_pagerank_inbound_formula)
  let ?s = "sorted_by_score m"
  have len: "length ?s = card (node_set edges)"
    using length_compute_pagerank_inbound [OF m] by (simp add: sorted_by_score_def)
  have main: "main_program edges node_names = display_loop [0..<20] ?s node_names"
    unfolding main_program_def m by simp
  have "\<exists>i\<in>set [0..<20]. length ?s \<le> i"
    using assms len by (intro bexI [of _ "length ?s"]) simp_all
  then have "snd (display_loop [0..<20] ?s node_names) = Some IndexError"
    by (rule display_loop_fails)
  moreover have "length (fst (display_loop [0..<20] ?s node_names)) \<le> card (node_set edges)"
    using display_loop_printed [of "[0..<20]" ?s node_names] assms len
    by (simp add: length_filter_less_upt)
  ultimately show ?thesis by (simp add: main)
qed

theorem top20_fails_below_20_nodes_witness:
  "card (node_set [(1 :: int, 2), (2, 1)]) < 20
   \<and> main_program [(1, 2), (2, 1)] [''a'', ''b'', ''c'']
       = ([Line 1 2 (Some ''c'') (1 / 2), Line 2 1 (Some ''b'') (1 / 2)], Some IndexError)"
proof -
  have c: "card (node_set [(1 :: int, 2), (2, 1)]) = 2"
    by (simp add: node_set_def card_insert_if)
  have m: "main_program [(1, 2), (2, 1)] [''a'', ''b'', ''c'']
       = ([Line 1 2 (Some ''c'') (1 / 2), Line 2 1 (Some ''b'') (1 / 2)], Some IndexError)"
    by (simp add: main_program_def compute_pagerank_inbound_def all_nodes_def run_eval
          eval_nat_numeral sorted_by_score_def display_line_def list_index_def upt_rec)
  show ?thesis
    using c m top20_fails_below_20_nodes [of "[(1, 2), (2, 1)]" "[''a'', ''b'', ''c'']"]
    by simp
qed

end
